theory Spec2Isabelle
  imports Main "HOL-Library.AList" "HOL-Library.Multiset"
begin

section \<open>The cache table of cache2go\<close>

text \<open>
  A sequential model of \<^verbatim>\<open>CacheTable\<close> (cachetable.go).  One call runs from start to end
  with no other call interleaved, so the two mutexes do nothing and are left out; the logger
  only prints and is left out as well.

  \<^item> Go's \<^verbatim>\<open>*CacheItem\<close> is an address into a heap of items: the table maps keys
    to addresses, and a call that returns an item returns its address.  The heap is a list,
    an address is an index, and allocating appends.
  \<^item> \<^verbatim>\<open>time.Time\<close> and \<^verbatim>\<open>time.Duration\<close> are counts of nanoseconds and
    \<open>accessCount\<close> is an \<^verbatim>\<open>int64\<close>; they are taken as unbounded integers.  The code
    subtracts a time without access from a life span only when it is the smaller of the
    two, and adds 1 to counters, so with a clock that does not run backwards nothing comes
    near the 64-bit range.  Every reading of the clock is an argument of the operation
    that makes it.
  \<^item> \<^verbatim>\<open>map[interface{}]*CacheItem\<close> is an association list; a \<^verbatim>\<open>range\<close> loop visits
    the pairs in the order of the list.  Go fixes no order, and the theorems hold for every
    list, hence for every order a loop can take.  Of what a loop leaves behind, only the
    order of the events of one expiration check and the order among equal access counts
    in a ranking depend on the order of the list.
  \<^item> A callback is a number naming it.  Calling it appends an event to \<open>trace\<close>; callbacks
    are taken not to call back into the table.
\<close>

type_synonym addr = nat

datatype error = ErrKeyNotFound | ErrKeyNotFoundOrLoadable

datatype 'k event =
    AddedItemCB nat addr
  | AboutToDeleteItemCB nat addr
  | AboutToExpireCB nat 'k

text \<open>A \<^verbatim>\<open>*time.Timer\<close> made by \<^verbatim>\<open>time.AfterFunc\<close>: waiting for its deadline, or stopped
  (or already fired).\<close>

datatype timer = Pending int | Inactive

record ('k, 'd) CacheItem =
  key :: 'k
  data :: 'd
  lifeSpan :: int
  createdOn :: int
  accessedOn :: int
  accessCount :: int
  aboutToExpire :: "nat list"

record ('k, 'd) CacheTable =
  name :: string
  items :: "('k \<times> addr) list"
  cleanupTimer :: "timer option"
  cleanupInterval :: int
  loadData :: "('k \<Rightarrow> 'd list \<Rightarrow> ('k, 'd) CacheItem option) option"
  addedItem :: "nat list"
  aboutToDeleteItem :: "nat list"
  heap :: "('k, 'd) CacheItem list"
  trace :: "'k event list"

subsection \<open>Items\<close>

text \<open>Modelled from the spec: \<^verbatim>\<open>NewCacheItem\<close> (cacheitem.go is not among the sources).
  Section 4.1: a new item has \<open>createdOn = accessedOn = now\<close> and \<open>accessCount = 0\<close>.\<close>

definition NewCacheItem :: "'k \<Rightarrow> int \<Rightarrow> 'd \<Rightarrow> int \<Rightarrow> ('k, 'd) CacheItem" where
  "NewCacheItem k l d now =
     \<lparr>key = k, data = d, lifeSpan = l, createdOn = now, accessedOn = now,
      accessCount = 0, aboutToExpire = []\<rparr>"

text \<open>Modelled from the spec: \<^verbatim>\<open>KeepAlive\<close> (cacheitem.go is not among the sources).
  Section 4.1: sets \<open>accessedOn = now\<close> and increments \<open>accessCount\<close>.\<close>

definition KeepAlive :: "('k, 'd) CacheItem \<Rightarrow> int \<Rightarrow> ('k, 'd) CacheItem" where
  "KeepAlive i now = i\<lparr>accessedOn := now, accessCount := accessCount i + 1\<rparr>"

text \<open>Modelled from the spec: \<^verbatim>\<open>SetAboutToExpireCallback\<close> and
  \<^verbatim>\<open>AddAboutToExpireCallback\<close> (cacheitem.go is not among the sources).  Section 4.1: the
  first replaces the list by one callback, the second appends.\<close>

definition SetAboutToExpireCallback :: "('k, 'd) CacheItem \<Rightarrow> nat \<Rightarrow> ('k, 'd) CacheItem" where
  "SetAboutToExpireCallback i f = i\<lparr>aboutToExpire := [f]\<rparr>"

definition AddAboutToExpireCallback :: "('k, 'd) CacheItem \<Rightarrow> nat \<Rightarrow> ('k, 'd) CacheItem" where
  "AddAboutToExpireCallback i f = i\<lparr>aboutToExpire := aboutToExpire i @ [f]\<rparr>"

subsection \<open>The table\<close>

definition emptyTable :: "string \<Rightarrow> ('k, 'd) CacheTable" where
  "emptyTable n =
     \<lparr>name = n, items = [], cleanupTimer = None, cleanupInterval = 0, loadData = None,
      addedItem = [], aboutToDeleteItem = [], heap = [], trace = []\<rparr>"

definition Count :: "('k, 'd) CacheTable \<Rightarrow> int" where
  "Count t = int (length (items t))"

definition Exists :: "('k, 'd) CacheTable \<Rightarrow> 'k \<Rightarrow> bool" where
  "Exists t k = (case map_of (items t) k of Some _ \<Rightarrow> True | None \<Rightarrow> False)"

definition SetDataLoader ::
  "('k, 'd) CacheTable \<Rightarrow> ('k \<Rightarrow> 'd list \<Rightarrow> ('k, 'd) CacheItem option) \<Rightarrow> ('k, 'd) CacheTable" where
  "SetDataLoader t f = t\<lparr>loadData := Some f\<rparr>"

definition RemoveAddedItemCallbacks :: "('k, 'd) CacheTable \<Rightarrow> ('k, 'd) CacheTable" where
  "RemoveAddedItemCallbacks t = t\<lparr>addedItem := []\<rparr>"

definition AddAddedItemCallback :: "('k, 'd) CacheTable \<Rightarrow> nat \<Rightarrow> ('k, 'd) CacheTable" where
  "AddAddedItemCallback t f = t\<lparr>addedItem := addedItem t @ [f]\<rparr>"

definition SetAddedItemCallback :: "('k, 'd) CacheTable \<Rightarrow> nat \<Rightarrow> ('k, 'd) CacheTable" where
  "SetAddedItemCallback t f =
     (let t1 = (if length (addedItem t) > 0 then RemoveAddedItemCallbacks t else t)
      in t1\<lparr>addedItem := addedItem t1 @ [f]\<rparr>)"

definition RemoveAboutToDeleteItemCallback :: "('k, 'd) CacheTable \<Rightarrow> ('k, 'd) CacheTable" where
  "RemoveAboutToDeleteItemCallback t = t\<lparr>aboutToDeleteItem := []\<rparr>"

definition AddAboutToDeleteItemCallback :: "('k, 'd) CacheTable \<Rightarrow> nat \<Rightarrow> ('k, 'd) CacheTable" where
  "AddAboutToDeleteItemCallback t f = t\<lparr>aboutToDeleteItem := aboutToDeleteItem t @ [f]\<rparr>"

definition SetAboutToDeleteItemCallback :: "('k, 'd) CacheTable \<Rightarrow> nat \<Rightarrow> ('k, 'd) CacheTable" where
  "SetAboutToDeleteItemCallback t f =
     (let t1 = (if length (aboutToDeleteItem t) > 0 then RemoveAboutToDeleteItemCallback t else t)
      in t1\<lparr>aboutToDeleteItem := aboutToDeleteItem t1 @ [f]\<rparr>)"

text \<open>\<^verbatim>\<open>if table.cleanupTimer != nil { table.cleanupTimer.Stop() }\<close>\<close>

definition stopTimer :: "timer option \<Rightarrow> timer option" where
  "stopTimer tm = (case tm of None \<Rightarrow> None | Some _ \<Rightarrow> Some Inactive)"

subsection \<open>Deleting\<close>

text \<open>The two callback loops of \<^verbatim>\<open>deleteInternal\<close>: the table's \<open>aboutToDeleteItem\<close>
  callbacks on the item, then the item's \<open>aboutToExpire\<close> callbacks on the key.  The
  item is still in the table while they run.\<close>

definition fireDeleteCallbacks :: "('k, 'd) CacheTable \<Rightarrow> 'k \<Rightarrow> addr \<Rightarrow> ('k, 'd) CacheTable" where
  "fireDeleteCallbacks t k r =
     (let t1 = t\<lparr>trace := trace t @ map (\<lambda>cb. AboutToDeleteItemCB cb r) (aboutToDeleteItem t)\<rparr>
      in t1\<lparr>trace := trace t1 @ map (\<lambda>cb. AboutToExpireCB cb k) (aboutToExpire (heap t1 ! r))\<rparr>)"

definition deleteInternal ::
  "('k, 'd) CacheTable \<Rightarrow> 'k \<Rightarrow> (error + addr) \<times> ('k, 'd) CacheTable" where
  "deleteInternal t k =
     (case map_of (items t) k of
        None \<Rightarrow> (Inl ErrKeyNotFound, t)
      | Some r \<Rightarrow>
          (let t2 = fireDeleteCallbacks t k r
           in (Inr r, t2\<lparr>items := AList.delete k (items t2)\<rparr>)))"

definition Delete ::
  "('k, 'd) CacheTable \<Rightarrow> 'k \<Rightarrow> (error + addr) \<times> ('k, 'd) CacheTable" where
  "Delete t k = deleteInternal t k"

subsection \<open>The expiration check\<close>

text \<open>The loop of \<^verbatim>\<open>expirationCheck\<close> over the items, carrying \<open>smallestDuration\<close> and
  the table.  The loop deletes no key but the one it is visiting, so it visits every pair
  the map held when it started.\<close>

fun sweepLoop ::
  "int \<Rightarrow> ('k \<times> addr) list \<Rightarrow> int \<Rightarrow> ('k, 'd) CacheTable \<Rightarrow> int \<times> ('k, 'd) CacheTable" where
  "sweepLoop now [] sd t = (sd, t)"
| "sweepLoop now ((k, item) # rest) sd t =
     (let l = lifeSpan (heap t ! item); ao = accessedOn (heap t ! item) in
      if l = 0 then sweepLoop now rest sd t
      else if now - ao \<ge> l then sweepLoop now rest sd (snd (deleteInternal t k))
      else if sd = 0 \<or> l - (now - ao) < sd then sweepLoop now rest (l - (now - ao)) t
      else sweepLoop now rest sd t)"

text \<open>\<open>now\<close> is the one reading of the clock the check makes.  The timer that
  \<^verbatim>\<open>time.AfterFunc(smallestDuration, ...)\<close> starts is pending until \<open>now + smallestDuration\<close>,
  the call taken to happen at the reading \<open>now\<close>.\<close>

definition expirationCheck :: "('k, 'd) CacheTable \<Rightarrow> int \<Rightarrow> ('k, 'd) CacheTable" where
  "expirationCheck t now =
     (let t0 = t\<lparr>cleanupTimer := stopTimer (cleanupTimer t)\<rparr>;
          res = sweepLoop now (items t0) 0 t0;
          smallestDuration = fst res;
          t2 = (snd res)\<lparr>cleanupInterval := smallestDuration\<rparr>
      in if smallestDuration > 0
         then t2\<lparr>cleanupTimer := Some (Pending (now + smallestDuration))\<rparr>
         else t2)"

subsection \<open>Adding\<close>

text \<open>\<^verbatim>\<open>addInternal\<close> up to and including the \<open>addedItem\<close> callbacks.\<close>

definition insertItem :: "('k, 'd) CacheTable \<Rightarrow> addr \<Rightarrow> ('k, 'd) CacheTable" where
  "insertItem t item =
     (let t1 = t\<lparr>items := AList.update (key (heap t ! item)) item (items t)\<rparr>
      in t1\<lparr>trace := trace t1 @ map (\<lambda>cb. AddedItemCB cb item) (addedItem t1)\<rparr>)"

definition addInternal :: "('k, 'd) CacheTable \<Rightarrow> addr \<Rightarrow> int \<Rightarrow> ('k, 'd) CacheTable" where
  "addInternal t item now =
     (let expDur = cleanupInterval t;
          t2 = insertItem t item;
          l = lifeSpan (heap t2 ! item)
      in if l > 0 \<and> (expDur = 0 \<or> l < expDur) then expirationCheck t2 now else t2)"

text \<open>\<open>tc\<close> is the clock as \<^verbatim>\<open>NewCacheItem\<close> reads it, \<open>now\<close> the clock as the
  expiration check reads it, when \<^verbatim>\<open>addInternal\<close> runs one.\<close>

definition Add ::
  "('k, 'd) CacheTable \<Rightarrow> 'k \<Rightarrow> int \<Rightarrow> 'd \<Rightarrow> int \<Rightarrow> int \<Rightarrow> addr \<times> ('k, 'd) CacheTable" where
  "Add t k l d tc now =
     (let item = length (heap t);
          t1 = t\<lparr>heap := heap t @ [NewCacheItem k l d tc]\<rparr>
      in (item, addInternal t1 item now))"

definition NotFoundAdd ::
  "('k, 'd) CacheTable \<Rightarrow> 'k \<Rightarrow> int \<Rightarrow> 'd \<Rightarrow> int \<Rightarrow> int \<Rightarrow> bool \<times> ('k, 'd) CacheTable" where
  "NotFoundAdd t k l d tc now =
     (case map_of (items t) k of
        Some _ \<Rightarrow> (False, t)
      | None \<Rightarrow>
          (let item = length (heap t);
               t1 = t\<lparr>heap := heap t @ [NewCacheItem k l d tc]\<rparr>
           in (True, addInternal t1 item now)))"

subsection \<open>Reading\<close>

text \<open>\<open>tc\<close> is the clock as \<^verbatim>\<open>KeepAlive\<close> reads it on a hit, and as
  \<^verbatim>\<open>NewCacheItem\<close> reads it when the loader's item is added; \<open>now\<close> is the clock of the
  expiration check that \<^verbatim>\<open>Add\<close> may run.  The loader makes a new item (spec, section 3:
  "returning a new item or nothing"); its address is the next free one.\<close>

definition Value ::
  "('k, 'd) CacheTable \<Rightarrow> 'k \<Rightarrow> 'd list \<Rightarrow> int \<Rightarrow> int \<Rightarrow> (error + addr) \<times> ('k, 'd) CacheTable" where
  "Value t k args tc now =
     (case map_of (items t) k of
        Some r \<Rightarrow> (Inr r, t\<lparr>heap := (heap t)[r := KeepAlive (heap t ! r) tc]\<rparr>)
      | None \<Rightarrow>
          (case loadData t of
             Some f \<Rightarrow>
               (case f k args of
                  Some li \<Rightarrow>
                    (let item = length (heap t);
                         t1 = t\<lparr>heap := heap t @ [li]\<rparr>
                     in (Inr item, snd (Add t1 k (lifeSpan li) (data li) tc now)))
                | None \<Rightarrow> (Inl ErrKeyNotFoundOrLoadable, t))
           | None \<Rightarrow> (Inl ErrKeyNotFound, t)))"

definition Flush :: "('k, 'd) CacheTable \<Rightarrow> ('k, 'd) CacheTable" where
  "Flush t = t\<lparr>items := [], cleanupInterval := 0, cleanupTimer := stopTimer (cleanupTimer t)\<rparr>"

subsection \<open>Ranking by access count\<close>

text \<open>\<^verbatim>\<open>CacheItemPair\<close> is a pair of a key and an access count.  \<^verbatim>\<open>Less(i, j)\<close> is
  \<^verbatim>\<open>p[i].AccessCount > p[j].AccessCount\<close>.\<close>

type_synonym 'k CacheItemPair = "'k \<times> int"

definition Less :: "'k CacheItemPair \<Rightarrow> 'k CacheItemPair \<Rightarrow> bool" where
  "Less x y = (snd x > snd y)"

definition pairList :: "('k, 'd) CacheTable \<Rightarrow> 'k CacheItemPair list" where
  "pairList t = map (\<lambda>(k, v). (k, accessCount (heap t ! v))) (items t)"

text \<open>\<^verbatim>\<open>sort.Sort\<close> belongs to Go's library.  What it promises is that the slice afterwards
  holds the same elements with no later element \<^verbatim>\<open>Less\<close> than an earlier one; it is not
  stable.  \<open>sortedBy\<close> is that promise.\<close>

definition sortedBy :: "'k CacheItemPair list \<Rightarrow> 'k CacheItemPair list \<Rightarrow> bool" where
  "sortedBy p sp = (mset sp = mset p \<and> sorted_wrt (\<lambda>x y. \<not> Less y x) sp)"

text \<open>One result \<^verbatim>\<open>sort.Sort\<close> can give: insertion by descending access count.\<close>

fun insertPair :: "'k CacheItemPair \<Rightarrow> 'k CacheItemPair list \<Rightarrow> 'k CacheItemPair list" where
  "insertPair x [] = [x]"
| "insertPair x (y # ys) = (if Less y x then y # insertPair x ys else x # y # ys)"

fun sortPairs :: "'k CacheItemPair list \<Rightarrow> 'k CacheItemPair list" where
  "sortPairs [] = []"
| "sortPairs (x # xs) = insertPair x (sortPairs xs)"

text \<open>The second loop of \<^verbatim>\<open>MostAccessed\<close>, over the sorted pairs, with the counter \<open>c\<close>.\<close>

fun collect :: "('k, 'd) CacheTable \<Rightarrow> int \<Rightarrow> int \<Rightarrow> 'k CacheItemPair list \<Rightarrow> addr list" where
  "collect t cnt c [] = []"
| "collect t cnt c (v # vs) =
     (if c \<ge> cnt then []
      else (case map_of (items t) (fst v) of
              Some item \<Rightarrow> item # collect t cnt (c + 1) vs
            | None \<Rightarrow> collect t cnt (c + 1) vs))"

definition MostAccessed :: "('k, 'd) CacheTable \<Rightarrow> int \<Rightarrow> addr list" where
  "MostAccessed t cnt = collect t cnt 0 (sortPairs (pairList t))"

subsection \<open>Calls on an item through its address\<close>

text \<open>A caller that holds an item (from \<^verbatim>\<open>Add\<close> or \<^verbatim>\<open>Value\<close>) calls a method of
  the item; \<open>onItem\<close> applies it at the item's address.\<close>

definition onItem ::
  "('k, 'd) CacheTable \<Rightarrow> addr \<Rightarrow> (('k, 'd) CacheItem \<Rightarrow> ('k, 'd) CacheItem) \<Rightarrow> ('k, 'd) CacheTable" where
  "onItem t a f = (if a < length (heap t) then t\<lparr>heap := (heap t)[a := f (heap t ! a)]\<rparr> else t)"

subsection \<open>Runs\<close>

text \<open>The calls a program can make, with the clock readings each one takes, and the expiration
  check as the timer starts it.  \<open>OpSweep\<close> may run at any time, which covers every moment
  the timer can fire.\<close>

datatype ('k, 'd) op =
    OpAdd 'k int 'd int int
  | OpNotFoundAdd 'k int 'd int int
  | OpValue 'k "'d list" int int
  | OpDelete 'k
  | OpFlush
  | OpSweep int
  | OpSetDataLoader "'k \<Rightarrow> 'd list \<Rightarrow> ('k, 'd) CacheItem option"
  | OpSetAddedItemCallback nat
  | OpAddAddedItemCallback nat
  | OpRemoveAddedItemCallbacks
  | OpSetAboutToDeleteItemCallback nat
  | OpAddAboutToDeleteItemCallback nat
  | OpRemoveAboutToDeleteItemCallback
  | OpSetAboutToExpireCallback addr nat
  | OpAddAboutToExpireCallback addr nat

fun exec :: "('k, 'd) op \<Rightarrow> ('k, 'd) CacheTable \<Rightarrow> ('k, 'd) CacheTable" where
  "exec (OpAdd k l d tc now) t = snd (Add t k l d tc now)"
| "exec (OpNotFoundAdd k l d tc now) t = snd (NotFoundAdd t k l d tc now)"
| "exec (OpValue k args tc now) t = snd (Value t k args tc now)"
| "exec (OpDelete k) t = snd (Delete t k)"
| "exec OpFlush t = Flush t"
| "exec (OpSweep now) t = expirationCheck t now"
| "exec (OpSetDataLoader f) t = SetDataLoader t f"
| "exec (OpSetAddedItemCallback f) t = SetAddedItemCallback t f"
| "exec (OpAddAddedItemCallback f) t = AddAddedItemCallback t f"
| "exec OpRemoveAddedItemCallbacks t = RemoveAddedItemCallbacks t"
| "exec (OpSetAboutToDeleteItemCallback f) t = SetAboutToDeleteItemCallback t f"
| "exec (OpAddAboutToDeleteItemCallback f) t = AddAboutToDeleteItemCallback t f"
| "exec OpRemoveAboutToDeleteItemCallback t = RemoveAboutToDeleteItemCallback t"
| "exec (OpSetAboutToExpireCallback a f) t = onItem t a (\<lambda>i. SetAboutToExpireCallback i f)"
| "exec (OpAddAboutToExpireCallback a f) t = onItem t a (\<lambda>i. AddAboutToExpireCallback i f)"

fun run :: "('k, 'd) op list \<Rightarrow> ('k, 'd) CacheTable \<Rightarrow> ('k, 'd) CacheTable" where
  "run [] t = t"
| "run (x # xs) t = run xs (exec x t)"


subsection \<open>Notions the properties are stated with\<close>

text \<open>The table in the middle of \<^verbatim>\<open>Add\<close>: the new item is allocated and stored and the
  \<open>addedItem\<close> callbacks have run; the expiration check has not started.\<close>

definition inserted :: "('k, 'd) CacheTable \<Rightarrow> 'k \<Rightarrow> int \<Rightarrow> 'd \<Rightarrow> int \<Rightarrow> ('k, 'd) CacheTable" where
  "inserted t k l d tc =
     insertItem (t\<lparr>heap := heap t @ [NewCacheItem k l d tc]\<rparr>) (length (heap t))"

text \<open>Whether \<^verbatim>\<open>addInternal\<close> goes on to run the expiration check.\<close>

definition checksOnAdd :: "('k, 'd) CacheTable \<Rightarrow> int \<Rightarrow> bool" where
  "checksOnAdd t l = (0 < l \<and> (cleanupInterval t = 0 \<or> l < cleanupInterval t))"

text \<open>Every key is stored once, and every stored address is allocated.\<close>

definition wellFormed :: "('k, 'd) CacheTable \<Rightarrow> bool" where
  "wellFormed t =
     (distinct (map fst (items t)) \<and> list_all (\<lambda>p. snd p < length (heap t)) (items t))"

text \<open>The test of \<^verbatim>\<open>expirationCheck\<close> for deleting the item at an address, and what is
  left of its life span otherwise.\<close>

definition expired :: "('k, 'd) CacheTable \<Rightarrow> int \<Rightarrow> addr \<Rightarrow> bool" where
  "expired t now a =
     (lifeSpan (heap t ! a) \<noteq> 0 \<and> now - accessedOn (heap t ! a) \<ge> lifeSpan (heap t ! a))"

definition remaining :: "('k, 'd) CacheTable \<Rightarrow> int \<Rightarrow> addr \<Rightarrow> int" where
  "remaining t now a = lifeSpan (heap t ! a) - (now - accessedOn (heap t ! a))"

text \<open>The remaining life spans, at time \<open>now\<close>, of the stored items with a life span other
  than 0.\<close>

definition remainingList :: "('k, 'd) CacheTable \<Rightarrow> int \<Rightarrow> int list" where
  "remainingList t now =
     map (\<lambda>p. remaining t now (snd p)) (filter (\<lambda>p. lifeSpan (heap t ! snd p) \<noteq> 0) (items t))"

definition smallest :: "int list \<Rightarrow> int" where
  "smallest rs = (if rs = [] then 0 else Min (set rs))"


text \<open>The events of deleting the entry \<open>p\<close>: the table's callbacks on the item, then the
  item's callbacks on the key, each list in its order.\<close>

definition deleteEvents :: "('k, 'd) CacheTable \<Rightarrow> 'k \<times> addr \<Rightarrow> 'k event list" where
  "deleteEvents t p =
     map (\<lambda>cb. AboutToDeleteItemCB cb (snd p)) (aboutToDeleteItem t)
     @ map (\<lambda>cb. AboutToExpireCB cb (fst p)) (aboutToExpire (heap t ! snd p))"

text \<open>How \<open>smallestDuration\<close> changes over the remaining life spans of the items that stay.\<close>

fun track :: "int \<Rightarrow> int list \<Rightarrow> int" where
  "track sd [] = sd"
| "track sd (x # xs) = track (if sd = 0 \<or> x < sd then x else sd) xs"

text \<open>What a ranking \<open>r\<close> for the request \<open>cnt\<close> has to satisfy.\<close>

definition ranking :: "('k, 'd) CacheTable \<Rightarrow> int \<Rightarrow> addr list \<Rightarrow> bool" where
  "ranking t cnt r =
     (int (length r) \<le> max 0 cnt
      \<and> sorted_wrt (\<lambda>a b. accessCount (heap t ! a) \<ge> accessCount (heap t ! b)) r
      \<and> (if Count t \<le> cnt then mset r = mset (map snd (items t)) else True)
      \<and> (if cnt \<le> 0 then r = [] else True))"

subsection \<open>Tables for examples\<close>

definition tableA :: "(string, string) CacheTable" where
  "tableA = snd (Add (emptyTable ''t'') ''a'' 0 ''x'' 0 0)"


definition tableNeg :: "(string, string) CacheTable" where
  "tableNeg = snd (Add (emptyTable ''t'') ''a'' (- 1) ''x'' 0 0)"

definition tableAB :: "(string, string) CacheTable" where
  "tableAB = run [OpAdd ''a'' 10 ''x'' 0 0, OpAdd ''b'' 20 ''y'' 0 0, OpAdd ''c'' 0 ''z'' 0 0]
                 (emptyTable ''t'')"

definition tableL :: "(string, string) CacheTable" where
  "tableL = SetDataLoader (emptyTable ''t'') (\<lambda>k args. Some (NewCacheItem k 0 ''z'' 0))"


definition tableShort :: "(string, string) CacheTable" where
  "tableShort = snd (Add (emptyTable ''t'') ''a'' 1 ''x'' 0 1)"

definition tableRank :: "(string, string) CacheTable" where
  "tableRank = run [OpAdd ''a'' 0 ''x'' 0 0, OpAdd ''b'' 0 ''y'' 0 0, OpAdd ''c'' 0 ''z'' 0 0,
                    OpValue ''b'' [] 1 1, OpValue ''c'' [] 2 2, OpValue ''b'' [] 3 3]
                   (emptyTable ''t'')"

definition tableNoLoad :: "(string, string) CacheTable" where
  "tableNoLoad = SetDataLoader (emptyTable ''t'') (\<lambda>k args. None)"

section \<open>The expiration check, step by step\<close>

lemma delete_filter: "AList.delete k al = filter (\<lambda>p. fst p \<noteq> k) al"
  by (induction al) auto

lemma fireDeleteCallbacks_fields:
  "items (fireDeleteCallbacks t k r) = items t"
  "heap (fireDeleteCallbacks t k r) = heap t"
  "cleanupInterval (fireDeleteCallbacks t k r) = cleanupInterval t"
  "cleanupTimer (fireDeleteCallbacks t k r) = cleanupTimer t"
  "loadData (fireDeleteCallbacks t k r) = loadData t"
  "addedItem (fireDeleteCallbacks t k r) = addedItem t"
  "aboutToDeleteItem (fireDeleteCallbacks t k r) = aboutToDeleteItem t"
  "name (fireDeleteCallbacks t k r) = name t"
  "trace (fireDeleteCallbacks t k r) = trace t @ deleteEvents t (k, r)"
  by (simp_all add: fireDeleteCallbacks_def deleteEvents_def Let_def)

lemma deleteInternal_fields:
  "items (snd (deleteInternal t k)) = AList.delete k (items t)"
  "heap (snd (deleteInternal t k)) = heap t"
  "cleanupInterval (snd (deleteInternal t k)) = cleanupInterval t"
  "cleanupTimer (snd (deleteInternal t k)) = cleanupTimer t"
  "loadData (snd (deleteInternal t k)) = loadData t"
  "addedItem (snd (deleteInternal t k)) = addedItem t"
  "aboutToDeleteItem (snd (deleteInternal t k)) = aboutToDeleteItem t"
  "name (snd (deleteInternal t k)) = name t"
  by (auto simp: deleteInternal_def Let_def fireDeleteCallbacks_fields map_of_eq_None_iff
           split: option.splits)

lemma deleteInternal_trace:
  "map_of (items t) k = Some r \<Longrightarrow>
     trace (snd (deleteInternal t k)) = trace t @ deleteEvents t (k, r)"
  by (simp add: deleteInternal_def Let_def fireDeleteCallbacks_fields)

lemma expired_cong:
  "heap t' = heap t \<Longrightarrow> expired t' now a = expired t now a"
  by (simp add: expired_def)

lemma sweepLoop_fields:
  "heap (snd (sweepLoop now xs sd t)) = heap t"
  "cleanupInterval (snd (sweepLoop now xs sd t)) = cleanupInterval t"
  "cleanupTimer (snd (sweepLoop now xs sd t)) = cleanupTimer t"
  "loadData (snd (sweepLoop now xs sd t)) = loadData t"
  "addedItem (snd (sweepLoop now xs sd t)) = addedItem t"
  "aboutToDeleteItem (snd (sweepLoop now xs sd t)) = aboutToDeleteItem t"
  "name (snd (sweepLoop now xs sd t)) = name t"
  by (induction now xs sd t rule: sweepLoop.induct; simp add: Let_def deleteInternal_fields)+

lemma sweepLoop_items:
  "items (snd (sweepLoop now xs sd t)) =
     filter (\<lambda>p. fst p \<notin> fst ` set (filter (\<lambda>q. expired t now (snd q)) xs)) (items t)"
proof (induction now xs sd t rule: sweepLoop.induct)
  case (1 now sd t)
  show ?case by simp
next
  case (2 now k item rest sd t)
  let ?t' = "snd (deleteInternal t k)"
  have e: "\<And>a. expired ?t' now a = expired t now a"
    by (rule expired_cong) (simp add: deleteInternal_fields)
  show ?case
  proof (cases "expired t now item")
    case True
    then have "items (snd (sweepLoop now ((k, item) # rest) sd t))
               = items (snd (sweepLoop now rest sd ?t'))"
      by (simp add: expired_def Let_def)
    also have "\<dots> = filter (\<lambda>p. fst p \<notin> fst ` set (filter (\<lambda>q. expired t now (snd q)) rest))
                        (items ?t')"
    proof -
      from True have c: "lifeSpan (heap t ! item) \<noteq> 0"
        "lifeSpan (heap t ! item) \<le> now - accessedOn (heap t ! item)"
        by (simp_all add: expired_def)
      show ?thesis using 2(2)[OF refl refl] c by (simp add: e)
    qed
    finally show ?thesis using True
      by (simp add: deleteInternal_fields delete_filter)
  next
    case False
    then show ?thesis using 2(1)[OF refl refl] 2(3)[OF refl refl] 2(4)[OF refl refl]
      by (auto simp: expired_def Let_def)
  qed
qed

lemma sweepLoop_items_distinct:
  assumes "distinct (map fst (items t))"
  shows "items (snd (sweepLoop now (items t) sd t)) =
           filter (\<lambda>p. \<not> expired t now (snd p)) (items t)"
proof -
  have "\<And>p. p \<in> set (items t) \<Longrightarrow>
          (fst p \<notin> fst ` set (filter (\<lambda>q. expired t now (snd q)) (items t)))
          = (\<not> expired t now (snd p))"
  proof -
    fix p assume p: "p \<in> set (items t)"
    have "\<And>q. q \<in> set (items t) \<Longrightarrow> fst q = fst p \<Longrightarrow> q = p"
      using assms p by (metis eq_key_imp_eq_value prod.collapse)
    then show "(fst p \<notin> fst ` set (filter (\<lambda>q. expired t now (snd q)) (items t)))
          = (\<not> expired t now (snd p))"
      using p by auto
  qed
  then show ?thesis
    unfolding sweepLoop_items by (intro filter_cong refl)
qed

lemma sweepLoop_fst:
  "fst (sweepLoop now xs sd t) =
     track sd (map (\<lambda>p. remaining t now (snd p))
                 (filter (\<lambda>p. lifeSpan (heap t ! snd p) \<noteq> 0 \<and> \<not> expired t now (snd p)) xs))"
proof (induction now xs sd t rule: sweepLoop.induct)
  case (1 now sd t)
  show ?case by simp
next
  case (2 now k item rest sd t)
  let ?t' = "snd (deleteInternal t k)"
  have h: "heap ?t' = heap t" by (simp add: deleteInternal_fields)
  show ?case
    using 2(1)[OF refl refl] 2(2)[OF refl refl] 2(3)[OF refl refl] 2(4)[OF refl refl]
    by (auto simp: expired_def remaining_def Let_def h)
qed

lemma track_pos:
  "0 \<le> sd \<Longrightarrow> \<forall>x \<in> set xs. 0 < x \<Longrightarrow>
     track sd xs = (if sd = 0 then smallest xs else Min (insert sd (set xs)))"
proof (induction xs arbitrary: sd)
  case Nil
  then show ?case by (simp add: smallest_def)
next
  case (Cons x xs)
  then have x: "0 < x" and xs: "\<forall>y \<in> set xs. 0 < y" by simp_all
  show ?case
  proof (cases "sd = 0 \<or> x < sd")
    case True
    then have "track sd (x # xs) = track x xs" by simp
    also have "\<dots> = Min (insert x (set xs))" using Cons.IH[of x] x xs by simp
    finally show ?thesis using True Cons.prems x
      by (auto simp: smallest_def min_def)
  next
    case False
    then have "track sd (x # xs) = track sd xs" by simp
    also have "\<dots> = Min (insert sd (set xs))" using Cons.IH[of sd] False Cons.prems xs by simp
    finally show ?thesis using False
      by (cases "xs = []") (auto simp: min_def)
  qed
qed

lemma deleteEvents_cong:
  "heap t' = heap t \<Longrightarrow> aboutToDeleteItem t' = aboutToDeleteItem t \<Longrightarrow>
     deleteEvents t' p = deleteEvents t p"
  by (simp add: deleteEvents_def)

lemma sweepLoop_trace:
  "distinct (map fst xs) \<Longrightarrow> distinct (map fst (items t)) \<Longrightarrow> set xs \<subseteq> set (items t) \<Longrightarrow>
     trace (snd (sweepLoop now xs sd t)) =
       trace t @ concat (map (deleteEvents t) (filter (\<lambda>p. expired t now (snd p)) xs))"
proof (induction now xs sd t rule: sweepLoop.induct)
  case (1 now sd t)
  show ?case by simp
next
  case (2 now k item rest sd t)
  let ?t' = "snd (deleteInternal t k)"
  have m: "map_of (items t) k = Some item" using 2(6,7) by simp
  have e: "\<And>a. expired ?t' now a = expired t now a"
    by (rule expired_cong) (simp add: deleteInternal_fields)
  have d: "deleteEvents ?t' = deleteEvents t"
    by (rule ext, rule deleteEvents_cong) (simp_all add: deleteInternal_fields)
  have dr: "distinct (map fst rest)" and kr: "k \<notin> fst ` set rest" using 2(5) by auto
  have sub: "set rest \<subseteq> set (items ?t')"
    using 2(7) kr by (auto simp: deleteInternal_fields delete_filter)
  have dt: "distinct (map fst (items ?t'))"
    using 2(6) by (simp add: deleteInternal_fields distinct_delete)
  have sub0: "set rest \<subseteq> set (items t)" using 2(7) by simp
  show ?case
  proof (cases "expired t now item")
    case True
    then have c: "lifeSpan (heap t ! item) \<noteq> 0"
      "lifeSpan (heap t ! item) \<le> now - accessedOn (heap t ! item)"
      by (simp_all add: expired_def)
    have "trace (snd (sweepLoop now ((k, item) # rest) sd t))
            = trace (snd (sweepLoop now rest sd ?t'))"
      using c by (simp add: Let_def)
    also have "\<dots> = trace ?t' @ concat (map (deleteEvents ?t')
                         (filter (\<lambda>p. expired ?t' now (snd p)) rest))"
      using 2(2)[OF refl refl _ _ dr dt sub] c by simp
    finally show ?thesis using True
      by (simp add: e d deleteInternal_trace[OF m])
  next
    case False
    then show ?thesis
      using 2(1)[OF refl refl _ dr 2(6) sub0] 2(3)[OF refl refl _ _ _ dr 2(6) sub0]
            2(4)[OF refl refl _ _ _ dr 2(6) sub0]
      by (auto simp: expired_def Let_def)
  qed
qed

lemma remainingList_survivors:
  "heap t' = heap t \<Longrightarrow> items t' = filter (\<lambda>p. \<not> expired t now (snd p)) (items t) \<Longrightarrow>
     remainingList t' now =
       map (\<lambda>p. remaining t now (snd p))
           (filter (\<lambda>p. lifeSpan (heap t ! snd p) \<noteq> 0 \<and> \<not> expired t now (snd p)) (items t))"
proof -
  assume h: "heap t' = heap t"
    and i: "items t' = filter (\<lambda>p. \<not> expired t now (snd p)) (items t)"
  have "filter (\<lambda>p. lifeSpan (heap t ! snd p) \<noteq> 0) (items t')
        = filter (\<lambda>p. lifeSpan (heap t ! snd p) \<noteq> 0 \<and> \<not> expired t now (snd p)) (items t)"
    unfolding i filter_filter by (rule filter_cong) auto
  then show ?thesis by (simp add: remainingList_def remaining_def h)
qed

lemma remaining_pos:
  "lifeSpan (heap t ! a) \<noteq> 0 \<Longrightarrow> \<not> expired t now a \<Longrightarrow> 0 < remaining t now a"
  by (simp add: expired_def remaining_def)

lemma smallest_pos_iff: "\<forall>x \<in> set rs. 0 < x \<Longrightarrow> 0 < smallest rs \<longleftrightarrow> rs \<noteq> []"
  by (auto simp: smallest_def)

lemma expirationCheck_sweep:
  assumes "distinct (map fst (items t))"
  shows "items (expirationCheck t now) = filter (\<lambda>p. \<not> expired t now (snd p)) (items t)"
    and "heap (expirationCheck t now) = heap t"
    and "trace (expirationCheck t now) =
           trace t @ concat (map (deleteEvents t) (filter (\<lambda>p. expired t now (snd p)) (items t)))"
    and "cleanupInterval (expirationCheck t now) = smallest (remainingList (expirationCheck t now) now)"
    and "cleanupTimer (expirationCheck t now) =
           (if remainingList (expirationCheck t now) now = [] then stopTimer (cleanupTimer t)
            else Some (Pending (now + cleanupInterval (expirationCheck t now))))"
    and "loadData (expirationCheck t now) = loadData t"
    and "addedItem (expirationCheck t now) = addedItem t"
    and "aboutToDeleteItem (expirationCheck t now) = aboutToDeleteItem t"
proof -
  let ?t0 = "t\<lparr>cleanupTimer := stopTimer (cleanupTimer t)\<rparr>"
  let ?res = "sweepLoop now (items ?t0) 0 ?t0"
  let ?rs = "map (\<lambda>p. remaining t now (snd p))
       (filter (\<lambda>p. lifeSpan (heap t ! snd p) \<noteq> 0 \<and> \<not> expired t now (snd p)) (items t))"
  have d0: "distinct (map fst (items ?t0))" using assms by simp
  have e0: "\<And>a. expired ?t0 now a = expired t now a" by (simp add: expired_def)
  have r0: "\<And>a. remaining ?t0 now a = remaining t now a" by (simp add: remaining_def)
  have ev0: "deleteEvents ?t0 = deleteEvents t" by (rule ext) (simp add: deleteEvents_def)
  have it: "items (snd ?res) = filter (\<lambda>p. \<not> expired t now (snd p)) (items t)"
    using sweepLoop_items_distinct[OF d0, of now 0] by (simp add: e0)
  have hp: "heap (snd ?res) = heap t" by (simp add: sweepLoop_fields)
  have tr: "trace (snd ?res) =
      trace t @ concat (map (deleteEvents t) (filter (\<lambda>p. expired t now (snd p)) (items t)))"
    using sweepLoop_trace[OF d0 d0 subset_refl, of now 0] by (simp add: e0 ev0)
  have pos: "\<forall>x \<in> set ?rs. 0 < x" by (auto simp: remaining_pos)
  have sd: "fst ?res = smallest ?rs"
    using track_pos[of 0 ?rs] pos by (simp add: sweepLoop_fst e0 r0)
  have fields: "items (expirationCheck t now) = items (snd ?res)"
    "heap (expirationCheck t now) = heap (snd ?res)"
    "trace (expirationCheck t now) = trace (snd ?res)"
    "cleanupInterval (expirationCheck t now) = fst ?res"
    "cleanupTimer (expirationCheck t now) =
       (if fst ?res > 0 then Some (Pending (now + fst ?res)) else cleanupTimer (snd ?res))"
    "loadData (expirationCheck t now) = loadData (snd ?res)"
    "addedItem (expirationCheck t now) = addedItem (snd ?res)"
    "aboutToDeleteItem (expirationCheck t now) = aboutToDeleteItem (snd ?res)"
    by (simp_all add: expirationCheck_def Let_def)
  have rl: "remainingList (expirationCheck t now) now = ?rs"
    by (rule remainingList_survivors) (use it hp in \<open>simp_all add: fields\<close>)
  show "items (expirationCheck t now) = filter (\<lambda>p. \<not> expired t now (snd p)) (items t)"
    using it by (simp add: fields)
  show "heap (expirationCheck t now) = heap t" using hp by (simp add: fields)
  show "trace (expirationCheck t now) =
           trace t @ concat (map (deleteEvents t) (filter (\<lambda>p. expired t now (snd p)) (items t)))"
    using tr by (simp add: fields)
  show "cleanupInterval (expirationCheck t now) = smallest (remainingList (expirationCheck t now) now)"
    using sd by (simp add: fields(4) rl)
  show "cleanupTimer (expirationCheck t now) =
           (if remainingList (expirationCheck t now) now = [] then stopTimer (cleanupTimer t)
            else Some (Pending (now + cleanupInterval (expirationCheck t now))))"
    using smallest_pos_iff[OF pos] sd by (simp add: fields(4,5) rl sweepLoop_fields)
  show "loadData (expirationCheck t now) = loadData t" by (simp add: fields sweepLoop_fields)
  show "addedItem (expirationCheck t now) = addedItem t" by (simp add: fields sweepLoop_fields)
  show "aboutToDeleteItem (expirationCheck t now) = aboutToDeleteItem t"
    by (simp add: fields sweepLoop_fields)
qed


section \<open>Reading: errors and results of Value\<close>

text \<open>
  C1.  \<open>Value\<close> fails with \<open>ErrKeyNotFoundOrLoadable\<close> exactly when the key is absent, a
  loader is set and the loader returns no item; it fails with \<open>ErrKeyNotFound\<close> exactly
  when the key is absent and no loader is set; when the key is present it succeeds and
  returns the stored item.
\<close>

theorem Value_result:
  "(fst (Value t k args tc now) = Inl ErrKeyNotFoundOrLoadable \<longleftrightarrow>
      map_of (items t) k = None \<and> (\<exists>f. loadData t = Some f \<and> f k args = None))
   \<and> (fst (Value t k args tc now) = Inl ErrKeyNotFound \<longleftrightarrow>
      map_of (items t) k = None \<and> loadData t = None)
   \<and> (\<forall>r. map_of (items t) k = Some r \<longrightarrow> fst (Value t k args tc now) = Inr r)"
  by (auto simp: Value_def Let_def split: option.splits)

theorem Value_result_witness:
  "map_of (items tableA) ''a'' = Some 0 \<and> fst (Value tableA ''a'' [] 5 5) = Inr 0
   \<and> fst (Value tableA ''b'' [] 5 5) = Inl ErrKeyNotFound
   \<and> fst (Value tableNoLoad ''b'' [] 5 5) = Inl ErrKeyNotFoundOrLoadable"
proof -
  have h: "map_of (items tableA) ''a'' = Some 0" by code_simp
  have n: "map_of (items tableA) ''b'' = None" "loadData tableA = None" by code_simp+
  have m: "map_of (items tableNoLoad) ''b'' = None"
    "\<exists>f. loadData tableNoLoad = Some f \<and> f ''b'' [] = None"
    by (simp_all add: tableNoLoad_def SetDataLoader_def emptyTable_def)
  from Value_result [of tableA "''a''" "[]" 5 5] h
  have 1: "fst (Value tableA ''a'' [] 5 5) = Inr 0" by blast
  from Value_result [of tableA "''b''" "[]" 5 5] n
  have 2: "fst (Value tableA ''b'' [] 5 5) = Inl ErrKeyNotFound" by blast
  from Value_result [of tableNoLoad "''b''" "[]" 5 5] m
  have 3: "fst (Value tableNoLoad ''b'' [] 5 5) = Inl ErrKeyNotFoundOrLoadable" by blast
  from h 1 2 3 show ?thesis by blast
qed

section \<open>Deleting a key\<close>



section \<open>Flushing\<close>

text \<open>
  C8.  After \<open>Flush\<close> the table holds no item and \<open>Count\<close> is 0, the cleanup interval is 0
  and the timer is not pending.  An expiration check run on the flushed table, at any time,
  deletes nothing and calls no callback.
\<close>

theorem Flush_result:
  "items (Flush t) = [] \<and> Count (Flush t) = 0 \<and> cleanupInterval (Flush t) = 0
   \<and> cleanupTimer (Flush t) = stopTimer (cleanupTimer t)
   \<and> cleanupTimer (Flush t) \<noteq> Some (Pending dl)
   \<and> items (expirationCheck (Flush t) now) = []
   \<and> trace (expirationCheck (Flush t) now) = trace t
   \<and> cleanupTimer (expirationCheck (Flush t) now) \<noteq> Some (Pending dl)"
  by (auto simp: Flush_def Count_def stopTimer_def expirationCheck_def Let_def split: option.splits)



section \<open>Inserting, step by step\<close>

lemma insertItem_fields:
  "items (insertItem t item) = AList.update (key (heap t ! item)) item (items t)"
  "heap (insertItem t item) = heap t"
  "cleanupInterval (insertItem t item) = cleanupInterval t"
  "cleanupTimer (insertItem t item) = cleanupTimer t"
  "loadData (insertItem t item) = loadData t"
  "addedItem (insertItem t item) = addedItem t"
  "aboutToDeleteItem (insertItem t item) = aboutToDeleteItem t"
  "trace (insertItem t item) = trace t @ map (\<lambda>cb. AddedItemCB cb item) (addedItem t)"
  by (simp_all add: insertItem_def Let_def)


lemma addInternal_unfold:
  "addInternal t item now =
     (if lifeSpan (heap t ! item) > 0
         \<and> (cleanupInterval t = 0 \<or> lifeSpan (heap t ! item) < cleanupInterval t)
      then expirationCheck (insertItem t item) now else insertItem t item)"
  by (simp add: addInternal_def Let_def insertItem_fields)







section \<open>One expiration check\<close>

text \<open>
  C3 (as amended).  One expiration check at time \<open>now\<close>, on a table that stores every key
  once, deletes exactly the items whose life span is not 0 and whose time without access
  \<open>now - accessedOn\<close> is at least their life span, each through \<open>deleteInternal\<close> with
  its callbacks, and leaves the heap alone.  Afterwards the cleanup interval is the least
  \<open>lifeSpan - (now - accessedOn)\<close> over the items left with a life span other than 0,
  and the timer is pending for that long; when no such item is left the interval is 0 and
  the timer is stopped.
\<close>

theorem expirationCheck_result:
  assumes "distinct (map fst (items t))"
  shows "items (expirationCheck t now) = filter (\<lambda>p. \<not> expired t now (snd p)) (items t)
       \<and> heap (expirationCheck t now) = heap t
       \<and> trace (expirationCheck t now) =
           trace t @ concat (map (deleteEvents t) (filter (\<lambda>p. expired t now (snd p)) (items t)))
       \<and> cleanupInterval (expirationCheck t now)
           = smallest (remainingList (expirationCheck t now) now)
       \<and> cleanupTimer (expirationCheck t now) =
           (if remainingList (expirationCheck t now) now = [] then stopTimer (cleanupTimer t)
            else Some (Pending (now + cleanupInterval (expirationCheck t now))))"
  using expirationCheck_sweep[OF assms, of now] by simp

theorem expirationCheck_result_witness:
  "distinct (map fst (items tableAB))
   \<and> items (expirationCheck tableAB 15) = [(''b'', 1), (''c'', 2)]
   \<and> cleanupInterval (expirationCheck tableAB 15) = 5
   \<and> cleanupTimer (expirationCheck tableAB 15) = Some (Pending 20)"
proof -
  have d: "distinct (map fst (items tableAB))" by code_simp
  have i: "filter (\<lambda>p. \<not> expired tableAB 15 (snd p)) (items tableAB) = [(''b'', 1), (''c'', 2)]"
    by code_simp
  note r = expirationCheck_result [OF d, of 15]
  from r i have 1: "items (expirationCheck tableAB 15) = [(''b'', 1), (''c'', 2)]"
    and 2: "heap (expirationCheck tableAB 15) = heap tableAB" by simp_all
  have l: "remainingList (expirationCheck tableAB 15) 15 = [5]"
    unfolding remainingList_def remaining_def 1 2 by code_simp
  from r l have 3: "cleanupInterval (expirationCheck tableAB 15) = 5"
    by (simp add: smallest_def)
  from r l 3 have 4: "cleanupTimer (expirationCheck tableAB 15) = Some (Pending 20)"
    by simp
  from d 1 3 4 show ?thesis by simp
qed

text \<open>The specification names the items of positive life span only.  An item added
  with life span \<open>-1\<close> is stored, and the next check deletes it.\<close>

theorem expirationCheck_deletes_negative:
  "map_of (items tableNeg) ''a'' = Some 0 \<and> lifeSpan (heap tableNeg ! 0) = - 1
   \<and> items (expirationCheck tableNeg 0) = []"
  by code_simp

section \<open>The interval between checks\<close>






section \<open>Adding, step by step\<close>

lemma map_of_filter_distinct:
  "distinct (map fst xs) \<Longrightarrow>
     map_of (filter P xs) k =
       (case map_of xs k of None \<Rightarrow> None | Some a \<Rightarrow> if P (k, a) then Some a else None)"
proof (induction xs)
  case Nil
  show ?case by simp
next
  case (Cons x xs)
  obtain k' a' where x: "x = (k', a')" by (cases x)
  from Cons.prems x have nk: "map_of xs k' = None" and d: "distinct (map fst xs)"
    by (simp_all add: map_of_eq_None_iff)
  show ?case using Cons.IH[OF d] nk x by (auto split: option.splits)
qed

lemma expirationCheck_heap: "heap (expirationCheck t now) = heap t"
  by (simp add: expirationCheck_def Let_def sweepLoop_fields)

lemma expirationCheck_map_of:
  assumes "distinct (map fst (items t))"
  shows "map_of (items (expirationCheck t now)) k =
           (case map_of (items t) k of None \<Rightarrow> None
            | Some a \<Rightarrow> if expired t now a then None else Some a)"
  unfolding expirationCheck_sweep(1)[OF assms] map_of_filter_distinct[OF assms]
  by (simp split: option.splits)

lemma expirationCheck_distinct:
  assumes "distinct (map fst (items t))"
  shows "distinct (map fst (items (expirationCheck t now)))"
  unfolding expirationCheck_sweep(1)[OF assms] using assms by (simp add: distinct_map_filter)

lemma inserted_fields:
  "items (inserted t k l d tc) = AList.update k (length (heap t)) (items t)"
  "heap (inserted t k l d tc) = heap t @ [NewCacheItem k l d tc]"
  "cleanupInterval (inserted t k l d tc) = cleanupInterval t"
  "cleanupTimer (inserted t k l d tc) = cleanupTimer t"
  "loadData (inserted t k l d tc) = loadData t"
  "addedItem (inserted t k l d tc) = addedItem t"
  "aboutToDeleteItem (inserted t k l d tc) = aboutToDeleteItem t"
  "trace (inserted t k l d tc) =
     trace t @ map (\<lambda>cb. AddedItemCB cb (length (heap t))) (addedItem t)"
  by (simp_all add: inserted_def insertItem_fields NewCacheItem_def)

lemma inserted_map_of:
  "map_of (items (inserted t k l d tc)) = (map_of (items t))(k \<mapsto> length (heap t))"
  by (simp add: inserted_fields update_conv')

lemma inserted_distinct:
  "distinct (map fst (items t)) \<Longrightarrow> distinct (map fst (items (inserted t k l d tc)))"
  by (simp add: inserted_fields distinct_update)

lemma inserted_new: "heap (inserted t k l d tc) ! length (heap t) = NewCacheItem k l d tc"
  by (simp add: inserted_fields)


lemma addInternal_inserted:
  "addInternal (t\<lparr>heap := heap t @ [NewCacheItem k l d tc]\<rparr>) (length (heap t)) now =
     (if checksOnAdd t l then expirationCheck (inserted t k l d tc) now
      else inserted t k l d tc)"
proof (cases "checksOnAdd t l")
  case True
  then show ?thesis
    by (auto simp: addInternal_unfold checksOnAdd_def inserted_def NewCacheItem_def)
next
  case False
  then show ?thesis
    by (auto simp: addInternal_unfold checksOnAdd_def inserted_def NewCacheItem_def)
qed

lemma Add_unfold:
  "Add t k l d tc now =
     (length (heap t),
      if checksOnAdd t l then expirationCheck (inserted t k l d tc) now
      else inserted t k l d tc)"
  unfolding Add_def Let_def addInternal_inserted ..

lemma NotFoundAdd_unfold:
  "NotFoundAdd t k l d tc now =
     (case map_of (items t) k of
        Some _ \<Rightarrow> (False, t)
      | None \<Rightarrow> (True, if checksOnAdd t l then expirationCheck (inserted t k l d tc) now
                       else inserted t k l d tc))"
  unfolding NotFoundAdd_def Let_def addInternal_inserted ..

lemma Add_heap: "heap (snd (Add t k l d tc now)) = heap t @ [NewCacheItem k l d tc]"
  by (simp add: Add_unfold expirationCheck_heap inserted_fields)

lemma new_not_expired:
  "l \<le> 0 \<or> now - tc < l \<Longrightarrow> checksOnAdd t l \<Longrightarrow>
     \<not> expired (inserted t k l d tc) now (length (heap t))"
  by (auto simp: expired_def inserted_new NewCacheItem_def checksOnAdd_def)


lemma Add_map_of_new:
  assumes "distinct (map fst (items t))" and "l \<le> 0 \<or> now - tc < l"
  shows "map_of (items (snd (Add t k l d tc now))) k = Some (length (heap t))"
proof (cases "checksOnAdd t l")
  case True
  then show ?thesis
    using new_not_expired[OF assms(2) True, of k d]
    by (simp add: Add_unfold expirationCheck_map_of[OF inserted_distinct[OF assms(1)]]
          inserted_map_of)
next
  case False
  then show ?thesis by (simp add: Add_unfold inserted_map_of)
qed


section \<open>Adding a key that is not there\<close>

text \<open>
  C7.  On a table that stores every key once, \<open>NotFoundAdd\<close> returns true exactly when the
  key is absent.  When the key is present the call returns false and the whole table, with
  the item stored under the key, is as before.  When the key is absent the call allocates a
  new item with the given key, life span and data, stores it under the key and calls the
  \<open>addedItem\<close> callbacks on it; the items allocated before are untouched.  It then runs the
  expiration check as \<open>Add\<close> does, and unless that check finds the new item already past its
  life span, the key holds the new item when the call returns.
\<close>

theorem NotFoundAdd_result:
  assumes "distinct (map fst (items t))"
  shows "(fst (NotFoundAdd t k l d tc now) \<longleftrightarrow> map_of (items t) k = None)
       \<and> (map_of (items t) k \<noteq> None \<longrightarrow> NotFoundAdd t k l d tc now = (False, t))
       \<and> (map_of (items t) k = None \<longrightarrow>
            map_of (items (inserted t k l d tc)) k = Some (length (heap t))
          \<and> heap (inserted t k l d tc) = heap t @ [NewCacheItem k l d tc]
          \<and> trace (inserted t k l d tc) =
              trace t @ map (\<lambda>cb. AddedItemCB cb (length (heap t))) (addedItem t)
          \<and> snd (NotFoundAdd t k l d tc now) =
              (if checksOnAdd t l then expirationCheck (inserted t k l d tc) now
               else inserted t k l d tc)
          \<and> heap (snd (NotFoundAdd t k l d tc now)) = heap t @ [NewCacheItem k l d tc]
          \<and> (l \<le> 0 \<or> now - tc < l \<longrightarrow>
               map_of (items (snd (NotFoundAdd t k l d tc now))) k = Some (length (heap t))))"
proof -
  have 1: "fst (NotFoundAdd t k l d tc now) \<longleftrightarrow> map_of (items t) k = None"
    by (simp add: NotFoundAdd_unfold split: option.splits)
  have 2: "map_of (items t) k \<noteq> None \<longrightarrow> NotFoundAdd t k l d tc now = (False, t)"
    by (auto simp: NotFoundAdd_unfold split: option.splits)
  have 3: "map_of (items t) k = None \<longrightarrow>
            map_of (items (inserted t k l d tc)) k = Some (length (heap t))
          \<and> heap (inserted t k l d tc) = heap t @ [NewCacheItem k l d tc]
          \<and> trace (inserted t k l d tc) =
              trace t @ map (\<lambda>cb. AddedItemCB cb (length (heap t))) (addedItem t)
          \<and> snd (NotFoundAdd t k l d tc now) =
              (if checksOnAdd t l then expirationCheck (inserted t k l d tc) now
               else inserted t k l d tc)
          \<and> heap (snd (NotFoundAdd t k l d tc now)) = heap t @ [NewCacheItem k l d tc]
          \<and> (l \<le> 0 \<or> now - tc < l \<longrightarrow>
               map_of (items (snd (NotFoundAdd t k l d tc now))) k = Some (length (heap t)))"
  proof
    assume n: "map_of (items t) k = None"
    have e: "snd (NotFoundAdd t k l d tc now) = snd (Add t k l d tc now)"
      using n by (simp add: NotFoundAdd_unfold Add_unfold)
    have a: "map_of (items (inserted t k l d tc)) k = Some (length (heap t))"
      by (simp add: inserted_map_of)
    have b: "snd (Add t k l d tc now) =
              (if checksOnAdd t l then expirationCheck (inserted t k l d tc) now
               else inserted t k l d tc)"
      by (simp add: Add_unfold)
    have c: "l \<le> 0 \<or> now - tc < l \<longrightarrow>
               map_of (items (snd (Add t k l d tc now))) k = Some (length (heap t))"
      using Add_map_of_new[OF assms] by blast
    show "map_of (items (inserted t k l d tc)) k = Some (length (heap t))
          \<and> heap (inserted t k l d tc) = heap t @ [NewCacheItem k l d tc]
          \<and> trace (inserted t k l d tc) =
              trace t @ map (\<lambda>cb. AddedItemCB cb (length (heap t))) (addedItem t)
          \<and> snd (NotFoundAdd t k l d tc now) =
              (if checksOnAdd t l then expirationCheck (inserted t k l d tc) now
               else inserted t k l d tc)
          \<and> heap (snd (NotFoundAdd t k l d tc now)) = heap t @ [NewCacheItem k l d tc]
          \<and> (l \<le> 0 \<or> now - tc < l \<longrightarrow>
               map_of (items (snd (NotFoundAdd t k l d tc now))) k = Some (length (heap t)))"
      unfolding e using a b c inserted_fields(2,8)[of t k l d tc] Add_heap[of t k l d tc now]
      by blast
  qed
  from 1 2 3 show ?thesis by blast
qed

theorem NotFoundAdd_result_witness:
  "distinct (map fst (items tableA)) \<and> map_of (items tableA) ''a'' \<noteq> None
   \<and> NotFoundAdd tableA ''a'' 5 ''y'' 1 1 = (False, tableA)
   \<and> map_of (items tableA) ''b'' = None \<and> ((5::int) \<le> 0 \<or> (1::int) - 1 < 5)
   \<and> fst (NotFoundAdd tableA ''b'' 5 ''y'' 1 1)
   \<and> map_of (items (snd (NotFoundAdd tableA ''b'' 5 ''y'' 1 1))) ''b'' = Some 1
   \<and> heap (snd (NotFoundAdd tableA ''b'' 5 ''y'' 1 1)) ! 1 = NewCacheItem ''b'' 5 ''y'' 1"
proof -
  have d: "distinct (map fst (items tableA))" by code_simp
  have p: "map_of (items tableA) ''a'' \<noteq> None" by code_simp
  have n: "map_of (items tableA) ''b'' = None" by code_simp
  have g: "(5::int) \<le> 0 \<or> (1::int) - 1 < 5" by simp
  have h: "length (heap tableA) = 1" by code_simp
  from NotFoundAdd_result [OF d, where k = "''a''"] p
  have 1: "NotFoundAdd tableA ''a'' 5 ''y'' 1 1 = (False, tableA)" by blast
  note r = NotFoundAdd_result [OF d, where k = "''b''" and l = 5 and d = "''y''" and tc = 1 and now = 1]
  from r n have 2: "fst (NotFoundAdd tableA ''b'' 5 ''y'' 1 1)" by blast
  from r n g have 3: "map_of (items (snd (NotFoundAdd tableA ''b'' 5 ''y'' 1 1))) ''b''
                        = Some (length (heap tableA))" by blast
  from r n have 4: "heap (snd (NotFoundAdd tableA ''b'' 5 ''y'' 1 1))
                        = heap tableA @ [NewCacheItem ''b'' 5 ''y'' 1]" by blast
  from 4 h have 5: "heap (snd (NotFoundAdd tableA ''b'' 5 ''y'' 1 1)) ! 1
                        = NewCacheItem ''b'' 5 ''y'' 1"
    by (simp add: nth_append)
  from d p 1 n g 2 3 h 5 show ?thesis by simp
qed

section \<open>Well-formed tables\<close>

lemma wellFormed_iff:
  "wellFormed t \<longleftrightarrow>
     distinct (map fst (items t)) \<and> (\<forall>p \<in> set (items t). snd p < length (heap t))"
  by (simp add: wellFormed_def list_all_iff)

lemma wellFormed_distinct: "wellFormed t \<Longrightarrow> distinct (map fst (items t))"
  by (simp add: wellFormed_iff)

lemma wellFormed_addr: "wellFormed t \<Longrightarrow> map_of (items t) k = Some a \<Longrightarrow> a < length (heap t)"
  by (auto simp: wellFormed_iff dest: map_of_SomeD)

lemma set_update_subset: "set (AList.update k v al) \<subseteq> insert (k, v) (set al)"
  by (induction al) auto

lemma wellFormed_emptyTable: "wellFormed (emptyTable n)"
  by (simp add: wellFormed_iff emptyTable_def)

lemma wellFormed_grow:
  "wellFormed t \<Longrightarrow> wellFormed (t\<lparr>heap := heap t @ xs\<rparr>)"
  by (auto simp: wellFormed_iff)

lemma wellFormed_expirationCheck:
  assumes "wellFormed t"
  shows "wellFormed (expirationCheck t now)"
  using assms expirationCheck_distinct[OF wellFormed_distinct[OF assms], of now]
  by (auto simp: wellFormed_iff expirationCheck_heap
        expirationCheck_sweep(1)[OF wellFormed_distinct[OF assms]])

lemma wellFormed_inserted:
  assumes "wellFormed t"
  shows "wellFormed (inserted t k l d tc)"
proof -
  have "\<forall>p \<in> set (items (inserted t k l d tc)). snd p < length (heap (inserted t k l d tc))"
  proof
    fix p assume "p \<in> set (items (inserted t k l d tc))"
    then have "p = (k, length (heap t)) \<or> p \<in> set (items t)"
      using set_update_subset[of k "length (heap t)" "items t"]
      by (auto simp: inserted_fields)
    then show "snd p < length (heap (inserted t k l d tc))"
      using assms by (auto simp: wellFormed_iff inserted_fields)
  qed
  then show ?thesis
    using inserted_distinct[OF wellFormed_distinct[OF assms]] by (simp add: wellFormed_iff)
qed

lemma wellFormed_Add: "wellFormed t \<Longrightarrow> wellFormed (snd (Add t k l d tc now))"
  by (simp add: Add_unfold wellFormed_expirationCheck wellFormed_inserted)

lemma wellFormed_NotFoundAdd:
  "wellFormed t \<Longrightarrow> wellFormed (snd (NotFoundAdd t k l d tc now))"
  by (simp add: NotFoundAdd_unfold wellFormed_expirationCheck wellFormed_inserted
        split: option.splits)

lemma wellFormed_Delete: "wellFormed t \<Longrightarrow> wellFormed (snd (Delete t k))"
proof -
  assume w: "wellFormed t"
  have "set (AList.delete k (items t)) \<subseteq> set (items t)" by (auto simp: delete_filter)
  then show ?thesis
    using w by (auto simp: wellFormed_iff Delete_def deleteInternal_fields distinct_delete)
qed

lemma wellFormed_Flush: "wellFormed t \<Longrightarrow> wellFormed (Flush t)"
  by (simp add: wellFormed_iff Flush_def)

lemma Value_hit:
  "map_of (items t) k = Some r \<Longrightarrow>
     Value t k args tc now = (Inr r, t\<lparr>heap := (heap t)[r := KeepAlive (heap t ! r) tc]\<rparr>)"
  by (simp add: Value_def)

lemma Value_load:
  "map_of (items t) k = None \<Longrightarrow> loadData t = Some f \<Longrightarrow> f k args = Some li \<Longrightarrow>
     Value t k args tc now =
       (Inr (length (heap t)),
        snd (Add (t\<lparr>heap := heap t @ [li]\<rparr>) k (lifeSpan li) (data li) tc now))"
  by (simp add: Value_def Let_def)

lemma Value_miss:
  "map_of (items t) k = None \<Longrightarrow> loadData t = None \<or> (\<exists>f. loadData t = Some f \<and> f k args = None)
     \<Longrightarrow> snd (Value t k args tc now) = t"
  by (auto simp: Value_def)

lemma wellFormed_Value: "wellFormed t \<Longrightarrow> wellFormed (snd (Value t k args tc now))"
proof -
  assume w: "wellFormed t"
  show ?thesis
  proof (cases "map_of (items t) k")
    case (Some r)
    then show ?thesis using w by (simp add: Value_hit wellFormed_iff)
  next
    case None
    show ?thesis
    proof (cases "loadData t")
      case n: None
      then show ?thesis using None w by (simp add: Value_miss)
    next
      case (Some f)
      show ?thesis
      proof (cases "f k args")
        case n: None
        then show ?thesis using None Some w by (simp add: Value_miss)
      next
        case (Some li)
        then show ?thesis
          using None \<open>loadData t = Some f\<close> wellFormed_Add[OF wellFormed_grow[OF w, of "[li]"]]
          by (simp add: Value_load)
      qed
    qed
  qed
qed

lemma wellFormed_onItem: "wellFormed t \<Longrightarrow> wellFormed (onItem t a g)"
  by (simp add: wellFormed_iff onItem_def)

lemma wellFormed_exec: "wellFormed t \<Longrightarrow> wellFormed (exec x t)"
  by (cases x)
     (simp_all add: wellFormed_Add wellFormed_NotFoundAdd wellFormed_Value wellFormed_Delete
        wellFormed_Flush wellFormed_expirationCheck wellFormed_onItem,
      simp_all add: wellFormed_iff SetDataLoader_def SetAddedItemCallback_def
        AddAddedItemCallback_def RemoveAddedItemCallbacks_def SetAboutToDeleteItemCallback_def
        AddAboutToDeleteItemCallback_def RemoveAboutToDeleteItemCallback_def Let_def)

lemma wellFormed_run: "wellFormed t \<Longrightarrow> wellFormed (run xs t)"
  by (induction xs arbitrary: t) (simp_all add: wellFormed_exec)

lemma Add_items_subset:
  assumes "distinct (map fst (items t))"
  shows "set (items (snd (Add t k l d tc now))) \<subseteq> insert (k, length (heap t)) (set (items t))"
proof -
  have i: "set (items (inserted t k l d tc)) \<subseteq> insert (k, length (heap t)) (set (items t))"
    using set_update_subset[of k "length (heap t)" "items t"] by (simp add: inserted_fields)
  show ?thesis
  proof (cases "checksOnAdd t l")
    case True
    then show ?thesis
      using i by (auto simp: Add_unfold expirationCheck_sweep(1)[OF inserted_distinct[OF assms]])
  next
    case False
    then show ?thesis using i by (simp add: Add_unfold)
  qed
qed

section \<open>A key served by the loader\<close>

text \<open>
  C10.  Let the key be absent from a well-formed table and the loader return an item \<open>li\<close>.
  Then \<open>Value\<close> succeeds and returns the loader's item, at the address \<open>length (heap t)\<close>;
  it allocates one more item, at the next address, with the requested key, the life span
  and data of \<open>li\<close>, access count 0 and both time stamps at the time of the call, and
  stores that one under the key (\<open>Add\<close> then runs its expiration check, and unless the
  check finds the new item already past its life span the key holds it on return).  The
  two addresses differ, the loader's item is not stored in the table, and it is returned
  as the loader made it.
\<close>

theorem Value_loader_result:
  assumes "wellFormed t" and "map_of (items t) k = None"
    and "loadData t = Some f" and "f k args = Some li"
  shows "fst (Value t k args tc now) = Inr (length (heap t))
       \<and> heap (snd (Value t k args tc now))
           = heap t @ [li, NewCacheItem k (lifeSpan li) (data li) tc]
       \<and> heap (snd (Value t k args tc now)) ! length (heap t) = li
       \<and> heap (snd (Value t k args tc now)) ! Suc (length (heap t))
           = \<lparr>key = k, data = data li, lifeSpan = lifeSpan li, createdOn = tc,
              accessedOn = tc, accessCount = 0, aboutToExpire = []\<rparr>
       \<and> map_of (items (inserted (t\<lparr>heap := heap t @ [li]\<rparr>) k (lifeSpan li) (data li) tc)) k
           = Some (Suc (length (heap t)))
       \<and> snd (Value t k args tc now) =
           (if checksOnAdd t (lifeSpan li)
            then expirationCheck
                   (inserted (t\<lparr>heap := heap t @ [li]\<rparr>) k (lifeSpan li) (data li) tc) now
            else inserted (t\<lparr>heap := heap t @ [li]\<rparr>) k (lifeSpan li) (data li) tc)
       \<and> (lifeSpan li \<le> 0 \<or> now - tc < lifeSpan li \<longrightarrow>
            map_of (items (snd (Value t k args tc now))) k = Some (Suc (length (heap t))))
       \<and> length (heap t) \<noteq> Suc (length (heap t))
       \<and> length (heap t) \<notin> snd ` set (items (snd (Value t k args tc now)))"
proof -
  let ?t1 = "t\<lparr>heap := heap t @ [li]\<rparr>"
  let ?n = "length (heap t)"
  let ?v = "Value t k args tc now"
  have d1: "distinct (map fst (items ?t1))" using assms(1) by (simp add: wellFormed_iff)
  have v: "?v = (Inr ?n, snd (Add ?t1 k (lifeSpan li) (data li) tc now))"
    using Value_load[OF assms(2,3,4)] .
  have h: "heap (snd ?v) = heap t @ [li, NewCacheItem k (lifeSpan li) (data li) tc]"
    by (simp add: v Add_heap)
  have c: "checksOnAdd ?t1 (lifeSpan li) = checksOnAdd t (lifeSpan li)"
    by (simp add: checksOnAdd_def)
  have 1: "fst ?v = Inr ?n" by (simp add: v)
  have 3: "heap (snd ?v) ! ?n = li" by (simp add: h nth_append)
  have 4: "heap (snd ?v) ! Suc ?n
           = \<lparr>key = k, data = data li, lifeSpan = lifeSpan li, createdOn = tc,
              accessedOn = tc, accessCount = 0, aboutToExpire = []\<rparr>"
    by (simp add: h nth_append NewCacheItem_def)
  have 5: "map_of (items (inserted ?t1 k (lifeSpan li) (data li) tc)) k = Some (Suc ?n)"
    by (simp add: inserted_map_of)
  have 6: "snd ?v =
           (if checksOnAdd t (lifeSpan li)
            then expirationCheck (inserted ?t1 k (lifeSpan li) (data li) tc) now
            else inserted ?t1 k (lifeSpan li) (data li) tc)"
    by (simp add: v Add_unfold c)
  have 7: "lifeSpan li \<le> 0 \<or> now - tc < lifeSpan li \<longrightarrow>
            map_of (items (snd ?v)) k = Some (Suc ?n)"
    using Add_map_of_new[OF d1, of "lifeSpan li" now tc k "data li"] by (simp add: v)
  have 9: "?n \<notin> snd ` set (items (snd ?v))"
  proof
    assume "?n \<in> snd ` set (items (snd ?v))"
    then obtain p where p: "p \<in> set (items (snd ?v))" and s: "snd p = ?n" by auto
    from p have "p = (k, Suc ?n) \<or> p \<in> set (items t)"
      using Add_items_subset[OF d1, of k "lifeSpan li" "data li" tc now] by (auto simp: v)
    then show False using s assms(1) by (auto simp: wellFormed_iff)
  qed
  from 1 h 3 4 5 6 7 9 show ?thesis by simp
qed

theorem Value_loader_result_witness:
  "wellFormed tableL \<and> map_of (items tableL) ''c'' = None
   \<and> loadData tableL = Some (\<lambda>k args. Some (NewCacheItem k 0 ''z'' 0))
   \<and> fst (Value tableL ''c'' [] 1 1) = Inr 0
   \<and> heap (snd (Value tableL ''c'' [] 1 1)) ! 0 = NewCacheItem ''c'' 0 ''z'' 0
   \<and> map_of (items (snd (Value tableL ''c'' [] 1 1))) ''c'' = Some 1
   \<and> heap (snd (Value tableL ''c'' [] 1 1)) ! 1 = NewCacheItem ''c'' 0 ''z'' 1"
proof -
  have w: "wellFormed tableL" by (simp add: tableL_def SetDataLoader_def emptyTable_def wellFormed_def)
  have n: "map_of (items tableL) ''c'' = None" by (simp add: tableL_def SetDataLoader_def emptyTable_def)
  have f: "loadData tableL = Some (\<lambda>k args. Some (NewCacheItem k 0 ''z'' 0))"
    by (simp add: tableL_def SetDataLoader_def)
  have e: "(\<lambda>k args. Some (NewCacheItem k 0 ''z'' 0)) ''c'' ([]::string list)
             = Some (NewCacheItem ''c'' 0 ''z'' 0 :: (string, string) CacheItem)"
    by simp
  have l: "length (heap tableL) = 0" by (simp add: tableL_def SetDataLoader_def emptyTable_def)
  have z: "lifeSpan (NewCacheItem ''c'' 0 ''z'' 0 :: (string, string) CacheItem) = 0"
    "data (NewCacheItem ''c'' 0 ''z'' 0 :: (string, string) CacheItem) = ''z''"
    by (simp_all add: NewCacheItem_def)
  note r = Value_loader_result [OF w n f e, where tc = 1 and now = 1 and args = "[]"]
  from r have a: "fst (Value tableL ''c'' [] 1 1) = Inr (length (heap tableL))"
    and b: "heap (snd (Value tableL ''c'' [] 1 1)) ! length (heap tableL)
              = NewCacheItem ''c'' 0 ''z'' 0"
    and c: "lifeSpan (NewCacheItem ''c'' 0 ''z'' 0 :: (string, string) CacheItem) \<le> 0
              \<or> 1 - 1 < lifeSpan (NewCacheItem ''c'' 0 ''z'' 0 :: (string, string) CacheItem)
            \<longrightarrow> map_of (items (snd (Value tableL ''c'' [] 1 1))) ''c''
                  = Some (Suc (length (heap tableL)))"
    and d: "heap (snd (Value tableL ''c'' [] 1 1)) ! Suc (length (heap tableL))
              = \<lparr>key = ''c'', data = data (NewCacheItem ''c'' 0 ''z'' 0 :: (string, string) CacheItem),
                 lifeSpan = lifeSpan (NewCacheItem ''c'' 0 ''z'' 0 :: (string, string) CacheItem),
                 createdOn = 1, accessedOn = 1, accessCount = 0, aboutToExpire = []\<rparr>"
    by blast+
  from a l have 1: "fst (Value tableL ''c'' [] 1 1) = Inr 0" by simp
  from b l have 2: "heap (snd (Value tableL ''c'' [] 1 1)) ! 0 = NewCacheItem ''c'' 0 ''z'' 0"
    by simp
  from c l z have 3: "map_of (items (snd (Value tableL ''c'' [] 1 1))) ''c'' = Some 1" by simp
  from d l z have 4: "heap (snd (Value tableL ''c'' [] 1 1)) ! 1 = NewCacheItem ''c'' 0 ''z'' 1"
    by (simp add: NewCacheItem_def)
  from w n f 1 2 3 4 show ?thesis by blast
qed

section \<open>Runs keep an item that never expires\<close>






section \<open>Items that never expire\<close>




section \<open>Adding, then reading\<close>

text \<open>
  C6 (as amended).  On a well-formed table: after \<open>Add\<close> of a key, when the expiration
  check that \<open>Add\<close> may run does not find the new item already past its life span, a
  following \<open>Value\<close> of the key returns the added item, with the data given and access
  count 1.  Every \<open>Value\<close> of a stored key returns the stored item and raises its access
  count by exactly 1, setting \<open>accessedOn\<close>.
\<close>

theorem Add_Value_result:
  assumes "wellFormed t"
  shows "(l \<le> 0 \<or> now - tc < l \<longrightarrow>
            fst (Value (snd (Add t k l d tc now)) k args tc' now')
              = Inr (fst (Add t k l d tc now))
          \<and> data (heap (snd (Value (snd (Add t k l d tc now)) k args tc' now'))
                    ! fst (Add t k l d tc now)) = d
          \<and> accessCount (heap (snd (Value (snd (Add t k l d tc now)) k args tc' now'))
                    ! fst (Add t k l d tc now)) = 1)
       \<and> (\<forall>r. map_of (items t) k = Some r \<longrightarrow>
            fst (Value t k args tc now) = Inr r
          \<and> accessCount (heap (snd (Value t k args tc now)) ! r) = accessCount (heap t ! r) + 1
          \<and> accessedOn (heap (snd (Value t k args tc now)) ! r) = tc
          \<and> data (heap (snd (Value t k args tc now)) ! r) = data (heap t ! r))"
proof -
  let ?t' = "snd (Add t k l d tc now)"
  let ?a = "length (heap t)"
  have A: "l \<le> 0 \<or> now - tc < l \<longrightarrow>
            fst (Value ?t' k args tc' now') = Inr (fst (Add t k l d tc now))
          \<and> data (heap (snd (Value ?t' k args tc' now')) ! fst (Add t k l d tc now)) = d
          \<and> accessCount (heap (snd (Value ?t' k args tc' now')) ! fst (Add t k l d tc now)) = 1"
  proof
    assume g: "l \<le> 0 \<or> now - tc < l"
    have m: "map_of (items ?t') k = Some ?a"
      using Add_map_of_new[OF wellFormed_distinct[OF assms] g] .
    have f: "fst (Add t k l d tc now) = ?a" by (simp add: Add_unfold)
    have h: "heap ?t' = heap t @ [NewCacheItem k l d tc]" by (simp add: Add_heap)
    show "fst (Value ?t' k args tc' now') = Inr (fst (Add t k l d tc now))
          \<and> data (heap (snd (Value ?t' k args tc' now')) ! fst (Add t k l d tc now)) = d
          \<and> accessCount (heap (snd (Value ?t' k args tc' now')) ! fst (Add t k l d tc now)) = 1"
      unfolding f Value_hit[OF m] by (simp add: h KeepAlive_def NewCacheItem_def)
  qed
  have B: "\<forall>r. map_of (items t) k = Some r \<longrightarrow>
            fst (Value t k args tc now) = Inr r
          \<and> accessCount (heap (snd (Value t k args tc now)) ! r) = accessCount (heap t ! r) + 1
          \<and> accessedOn (heap (snd (Value t k args tc now)) ! r) = tc
          \<and> data (heap (snd (Value t k args tc now)) ! r) = data (heap t ! r)"
  proof (intro allI impI)
    fix r assume m: "map_of (items t) k = Some r"
    have r: "r < length (heap t)" using wellFormed_addr[OF assms m] .
    show "fst (Value t k args tc now) = Inr r
          \<and> accessCount (heap (snd (Value t k args tc now)) ! r) = accessCount (heap t ! r) + 1
          \<and> accessedOn (heap (snd (Value t k args tc now)) ! r) = tc
          \<and> data (heap (snd (Value t k args tc now)) ! r) = data (heap t ! r)"
      unfolding Value_hit[OF m] using r by (simp add: KeepAlive_def)
  qed
  show ?thesis by (intro conjI) (rule A B)+
qed

theorem Add_Value_result_witness:
  "wellFormed tableA \<and> ((5::int) \<le> 0 \<or> (1::int) - 1 < 5)
   \<and> fst (Value (snd (Add tableA ''b'' 5 ''y'' 1 1)) ''b'' [] 2 2) = Inr 1
   \<and> data (heap (snd (Value (snd (Add tableA ''b'' 5 ''y'' 1 1)) ''b'' [] 2 2)) ! 1) = ''y''
   \<and> accessCount (heap (snd (Value (snd (Add tableA ''b'' 5 ''y'' 1 1)) ''b'' [] 2 2)) ! 1) = 1
   \<and> map_of (items tableA) ''a'' = Some 0
   \<and> accessCount (heap (snd (Value tableA ''a'' [] 2 2)) ! 0) = accessCount (heap tableA ! 0) + 1"
proof -
  have w: "wellFormed tableA" by code_simp
  have g: "(5::int) \<le> 0 \<or> (1::int) - 1 < 5" by simp
  have f: "fst (Add tableA ''b'' 5 ''y'' 1 1) = 1" by code_simp
  have m: "map_of (items tableA) ''a'' = Some 0" by code_simp
  note r = Add_Value_result [OF w, where l = 5 and now = 1 and tc = 1 and k = "''b''"
             and d = "''y''" and args = "[]" and tc' = 2 and now' = 2,
             THEN conjunct1, rule_format]
  from r [OF g] f
  have 1: "fst (Value (snd (Add tableA ''b'' 5 ''y'' 1 1)) ''b'' [] 2 2) = Inr 1"
    and 2: "data (heap (snd (Value (snd (Add tableA ''b'' 5 ''y'' 1 1)) ''b'' [] 2 2)) ! 1) = ''y''"
    and 3: "accessCount (heap (snd (Value (snd (Add tableA ''b'' 5 ''y'' 1 1)) ''b'' [] 2 2)) ! 1) = 1"
    by simp_all
  note b = Add_Value_result [OF w, where k = "''a''" and args = "[]" and tc = 2 and now = 2,
             THEN conjunct2, rule_format]
  from b [OF m]
  have 4: "accessCount (heap (snd (Value tableA ''a'' [] 2 2)) ! 0)
             = accessCount (heap tableA ! 0) + 1"
    by simp
  show ?thesis by (intro conjI) (rule w g 1 2 3 m 4)+
qed

text \<open>The specification counts every successful \<open>Value\<close>, also one served by the loader,
  and takes \<open>Value\<close> after \<open>Add\<close> to succeed.  With a loader that makes an item for every
  key, \<open>Value\<close> of a missing key succeeds, yet the item it returns (address 0) and the item
  it stores (address 1) both have access count 0 afterwards.  And an item added with a life
  span of one nanosecond, when the check in \<open>Add\<close> reads the clock one nanosecond after
  the item was made, is deleted before \<open>Add\<close> returns, so \<open>Value\<close> fails.\<close>

theorem Value_loader_leaves_accessCount:
  "fst (Value tableL ''c'' [] 1 1) = Inr 0
   \<and> accessCount (heap (snd (Value tableL ''c'' [] 1 1)) ! 0) = 0
   \<and> map_of (items (snd (Value tableL ''c'' [] 1 1))) ''c'' = Some 1
   \<and> accessCount (heap (snd (Value tableL ''c'' [] 1 1)) ! 1) = 0
   \<and> fst (Value tableShort ''a'' [] 1 1) = Inl ErrKeyNotFound"
  by code_simp

section \<open>Ranking, step by step\<close>

lemma mset_insertPair: "mset (insertPair x ys) = add_mset x (mset ys)"
  by (induction ys) auto

lemma mset_sortPairs: "mset (sortPairs xs) = mset xs"
  by (induction xs) (auto simp: mset_insertPair)

lemma set_insertPair: "set (insertPair x ys) = insert x (set ys)"
  using mset_insertPair[of x ys] by (metis set_mset_add_mset_insert set_mset_mset)

lemma descending_insertPair:
  "sorted_wrt (\<lambda>x y. \<not> Less y x) ys \<Longrightarrow> sorted_wrt (\<lambda>x y. \<not> Less y x) (insertPair x ys)"
proof (induction ys)
  case Nil
  show ?case by simp
next
  case (Cons y ys)
  show ?case
  proof (cases "Less y x")
    case True
    then show ?thesis using Cons by (auto simp: set_insertPair Less_def)
  next
    case False
    then show ?thesis using Cons.prems by (auto simp: Less_def)
  qed
qed

lemma descending_sortPairs: "sorted_wrt (\<lambda>x y. \<not> Less y x) (sortPairs xs)"
  by (induction xs) (auto simp: descending_insertPair)

lemma sortedBy_sortPairs: "sortedBy p (sortPairs p)"
  by (simp add: sortedBy_def mset_sortPairs descending_sortPairs)

lemma collect_take:
  "\<forall>v \<in> set sp. map_of (items t) (fst v) \<noteq> None \<Longrightarrow>
     collect t cnt c sp = map (\<lambda>v. the (map_of (items t) (fst v))) (take (nat (cnt - c)) sp)"
proof (induction sp arbitrary: c)
  case Nil
  show ?case by simp
next
  case (Cons v vs)
  show ?case
  proof (cases "c \<ge> cnt")
    case True
    then show ?thesis by simp
  next
    case False
    then have n: "nat (cnt - c) = Suc (nat (cnt - (c + 1)))" by simp
    from Cons.prems obtain a where a: "map_of (items t) (fst v) = Some a" by auto
    from Cons.prems have r: "\<forall>u \<in> set vs. map_of (items t) (fst u) \<noteq> None" by simp
    show ?thesis using False a Cons.IH[OF r, of "c + 1"] by (simp add: n)
  qed
qed

lemma pairList_lookup:
  assumes "distinct (map fst (items t))" and "v \<in> set (pairList t)"
  shows "\<exists>a. map_of (items t) (fst v) = Some a \<and> snd v = accessCount (heap t ! a)"
proof -
  from assms(2) obtain k a where ka: "(k, a) \<in> set (items t)"
    and v: "v = (k, accessCount (heap t ! a))"
    by (auto simp: pairList_def)
  from assms(1) ka have "map_of (items t) k = Some a" by simp
  then show ?thesis using v by simp
qed

lemma pairList_items:
  assumes "distinct (map fst (items t))"
  shows "map (\<lambda>v. the (map_of (items t) (fst v))) (pairList t) = map snd (items t)"
proof -
  have "\<And>p. p \<in> set (items t) \<Longrightarrow> the (map_of (items t) (fst p)) = snd p"
    using assms by (metis map_of_is_SomeI option.sel prod.collapse)
  then show ?thesis by (auto simp: pairList_def)
qed

lemma collect_ranking:
  assumes "distinct (map fst (items t))" and "sortedBy (pairList t) sp"
  shows "ranking t cnt (collect t cnt 0 sp)"
proof -
  let ?g = "\<lambda>v. the (map_of (items t) (fst v))"
  from assms(2) have ms: "mset sp = mset (pairList t)"
    and so: "sorted_wrt (\<lambda>x y. \<not> Less y x) sp"
    by (simp_all add: sortedBy_def)
  from ms have st: "set sp = set (pairList t)" by (metis set_mset_mset)
  have look: "\<And>v. v \<in> set sp \<Longrightarrow>
      \<exists>a. map_of (items t) (fst v) = Some a \<and> snd v = accessCount (heap t ! a)"
    using pairList_lookup[OF assms(1)] st by blast
  have ac: "\<And>v. v \<in> set sp \<Longrightarrow> accessCount (heap t ! ?g v) = snd v"
    using look by fastforce
  have "\<forall>v \<in> set sp. map_of (items t) (fst v) \<noteq> None" using look by fastforce
  then have r: "collect t cnt 0 sp = map ?g (take (nat cnt) sp)"
    using collect_take[of sp t cnt 0] by simp
  have 1: "int (length (collect t cnt 0 sp)) \<le> max 0 cnt" unfolding r by simp
  have "sorted_wrt (\<lambda>x y. \<not> Less y x) (take (nat cnt) sp)"
    using so by (rule sorted_wrt_take)
  then have "sorted_wrt (\<lambda>x y. accessCount (heap t ! ?g x) \<ge> accessCount (heap t ! ?g y))
               (take (nat cnt) sp)"
  proof (rule sorted_wrt_mono_rel[rotated])
    fix x y assume "x \<in> set (take (nat cnt) sp)" "y \<in> set (take (nat cnt) sp)"
      and l: "\<not> Less y x"
    then have "x \<in> set sp" "y \<in> set sp" by (auto dest: in_set_takeD)
    then show "accessCount (heap t ! ?g x) \<ge> accessCount (heap t ! ?g y)"
      using l by (simp add: ac Less_def)
  qed
  then have 2: "sorted_wrt (\<lambda>a b. accessCount (heap t ! a) \<ge> accessCount (heap t ! b))
                  (collect t cnt 0 sp)"
    unfolding r by (simp add: sorted_wrt_map)
  have 3: "Count t \<le> cnt \<Longrightarrow> mset (collect t cnt 0 sp) = mset (map snd (items t))"
  proof -
    assume c: "Count t \<le> cnt"
    have "length sp = length (pairList t)" using ms by (metis size_mset)
    then have "length sp \<le> nat cnt" using c by (simp add: Count_def pairList_def)
    then have "collect t cnt 0 sp = map ?g sp" unfolding r by simp
    then have "mset (collect t cnt 0 sp) = image_mset ?g (mset sp)" by simp
    also have "\<dots> = mset (map ?g (pairList t))" unfolding ms by simp
    finally show ?thesis unfolding pairList_items[OF assms(1)] .
  qed
  have 4: "cnt \<le> 0 \<Longrightarrow> collect t cnt 0 sp = []" unfolding r by simp
  show ?thesis unfolding ranking_def using 1 2 3 4 by simp
qed

section \<open>The most accessed items\<close>

text \<open>
  C9.  On a table that stores every key once, \<open>MostAccessed\<close> returns at most \<open>cnt\<close> items
  in order of access count, highest first (equal counts in any order); when \<open>cnt\<close> is at
  least the number of items stored it returns all of them, and when \<open>cnt\<close> is 0 or less
  it returns none.  This holds for the sorting written out above and for every other
  result the sort may give.
\<close>

theorem MostAccessed_result:
  assumes "distinct (map fst (items t))"
  shows "ranking t cnt (MostAccessed t cnt)
       \<and> (\<forall>sp. sortedBy (pairList t) sp \<longrightarrow> ranking t cnt (collect t cnt 0 sp))"
  using collect_ranking[OF assms] sortedBy_sortPairs[of "pairList t"]
  by (simp add: MostAccessed_def)

theorem MostAccessed_result_witness:
  "distinct (map fst (items tableRank))
   \<and> map (\<lambda>a. accessCount (heap tableRank ! a)) [0, 1, 2] = [0, 2, 1]
   \<and> MostAccessed tableRank 2 = [1, 2] \<and> ranking tableRank 2 [1, 2]
   \<and> MostAccessed tableRank 7 = [1, 2, 0] \<and> ranking tableRank 7 [1, 2, 0]
   \<and> MostAccessed tableRank (- 1) = [] \<and> ranking tableRank (- 1) []
   \<and> sortedBy (pairList tableRank) [(''b'', 2), (''c'', 1), (''a'', 0)]
   \<and> ranking tableRank 2 (collect tableRank 2 0 [(''b'', 2), (''c'', 1), (''a'', 0)])"
proof -
  have p: "pairList tableRank = [(''a'', 0), (''b'', 2), (''c'', 1)]" by code_simp
  have s: "sortedBy (pairList tableRank) [(''b'', 2), (''c'', 1), (''a'', 0)]"
    unfolding p by (simp add: sortedBy_def Less_def)
  have d: "distinct (map fst (items tableRank))" by code_simp
  have c: "map (\<lambda>a. accessCount (heap tableRank ! a)) [0, 1, 2] = [0, 2, 1]" by code_simp
  have 1: "MostAccessed tableRank 2 = [1, 2]" by code_simp
  have 2: "MostAccessed tableRank 7 = [1, 2, 0]" by code_simp
  have 3: "MostAccessed tableRank (- 1) = []" by code_simp
  from MostAccessed_result [OF d, of 2] 1 have 4: "ranking tableRank 2 [1, 2]" by simp
  from MostAccessed_result [OF d, of 7] 2 have 5: "ranking tableRank 7 [1, 2, 0]" by simp
  from MostAccessed_result [OF d, of "- 1"] 3 have 6: "ranking tableRank (- 1) []" by simp
  from MostAccessed_result [OF d, of 2, THEN conjunct2, rule_format, OF s]
  have 7: "ranking tableRank 2 (collect tableRank 2 0 [(''b'', 2), (''c'', 1), (''a'', 0)])" .
  show ?thesis by (intro conjI) (rule d c 1 2 3 4 5 6 s 7)+
qed

end
